theory Spec2Isabelle
  imports Main "HOL-Library.AList" "HOL-Library.Multiset"
begin

section \<open>The per-host connection pool\<close>

text \<open>
  The pool code is the third document of \<^verbatim>\<open>path_intermediate.go\<close> (package gocql).
  A \<^verbatim>\<open>*Conn\<close> is known to the pool only by its identity, so a connection is a
  number.  \<^verbatim>\<open>HostInfo\<close> is read through \<^verbatim>\<open>Peer()\<close>, \<^verbatim>\<open>Port()\<close> and
  \<^verbatim>\<open>IsUp()\<close>.
\<close>

type_synonym conn = nat

type_synonym error = string

record HostInfo =
  Peer :: string
  Port :: int
  IsUp :: bool

text \<open>
  What the pool does to its collaborators, in the order it does it: taking and releasing
  \<^verbatim>\<open>pool.mu\<close>, \<^verbatim>\<open>session.connect\<close>, \<^verbatim>\<open>conn.UseKeyspace\<close>,
  \<^verbatim>\<open>conn.Close\<close>, \<^verbatim>\<open>policy.SetConns\<close> (\<open>None\<close> is the nil slice) and
  \<^verbatim>\<open>policy.Pick\<close>.
\<close>

datatype event =
    Lock
  | Unlock
  | RLock
  | RUnlock
  | Dial
  | UseKeyspace conn
  | ConnClose conn
  | SetConns "conn list option"
  | ConnPolicyPick

text \<open>
  A goroutine that has work left on the pool, by the point it has reached.
  \<^item> \<open>Fill\<close>: \<^verbatim>\<open>fill()\<close> was called (or started with \<^verbatim>\<open>go pool.fill()\<close>); next is the
    read-locked check.
  \<^item> \<open>FillUpgrade\<close>: the read-locked check passed; next is the write-locked re-check.
  \<^item> \<open>FillFirst fillCount\<close>: \<^verbatim>\<open>filling\<close> is set and \<^verbatim>\<open>startCount == 0\<close>; next is the
    call of \<^verbatim>\<open>connect()\<close> on this same goroutine.
  \<^item> \<open>ConnectMany k\<close>: inside \<^verbatim>\<open>connectMany\<close>, with \<open>k\<close> of the goroutines it started
    still to run \<^verbatim>\<open>connect()\<close>; the caller sits in \<^verbatim>\<open>wg.Wait()\<close> and goes on to
    \<^verbatim>\<open>fillingStopped()\<close>.
  \<^item> \<open>FillingStopped nd\<close>: inside \<^verbatim>\<open>fillingStopped()\<close>, asleep; next is clearing
    \<^verbatim>\<open>filling\<close>, and when \<open>nd\<close> holds \<^verbatim>\<open>go pool.session.handleNodeDown(...)\<close> after it.
  \<^item> \<open>Drain\<close>: started by \<^verbatim>\<open>go pool.drain()\<close>.
  \<^item> \<open>HandleNodeDown\<close>: started by \<^verbatim>\<open>go pool.session.handleNodeDown(...)\<close>; its body
    belongs to the session.
\<close>

datatype task =
    Fill
  | FillUpgrade
  | FillFirst int
  | ConnectMany nat
  | FillingStopped bool
  | Drain
  | HandleNodeDown

text \<open>
  The struct \<^verbatim>\<open>hostConnPool\<close>.  \<^verbatim>\<open>session\<close>, \<^verbatim>\<open>policy\<close> and \<^verbatim>\<open>mu\<close> are
  collaborators: the calls made on them are kept in \<open>trace\<close> (oldest first).
  \<open>tasks\<close> holds the goroutines started with \<^verbatim>\<open>go\<close> that have not finished.
  \<^verbatim>\<open>addr\<close> is only handed to \<^verbatim>\<open>session.connect\<close> and is left out.
\<close>

record hostConnPool =
  host :: HostInfo
  port :: int
  size' :: int
  keyspace :: string
  conns :: "conn list"
  closed :: bool
  filling :: bool
  trace :: "event list"
  tasks :: "task list"

definition emit :: "event list \<Rightarrow> hostConnPool \<Rightarrow> hostConnPool" where
  "emit es p = p\<lparr>trace := trace p @ es\<rparr>"

definition go :: "task \<Rightarrow> hostConnPool \<Rightarrow> hostConnPool" where
  "go t p = p\<lparr>tasks := tasks p @ [t]\<rparr>"

text \<open>
  The outcome of \<^verbatim>\<open>session.connect(pool.addr, pool)\<close>: an error, or a connection
  together with whether \<^verbatim>\<open>UseKeyspace\<close> would succeed on it.
\<close>

datatype dial = DialErr | Dialed conn bool

text \<open>
  \<^verbatim>\<open>connect()\<close>; the first component says whether it returns an error.  The dial and the
  keyspace call touch no field of the pool, so they are put together with the locked
  section that follows them.  On a closed pool the new connection is closed and
  \<^verbatim>\<open>nil\<close> is returned.
\<close>

definition connect :: "dial \<Rightarrow> hostConnPool \<Rightarrow> bool \<times> hostConnPool" where
  "connect d p =
     (case d of
        DialErr \<Rightarrow> (True, emit [Dial] p)
      | Dialed c ks \<Rightarrow>
          if keyspace p \<noteq> [] \<and> \<not> ks
          then (True, emit [Dial, UseKeyspace c, ConnClose c] p)
          else
            let p1 = emit (Dial # (if keyspace p \<noteq> [] then [UseKeyspace c] else [])) p in
            if closed p1
            then (False, emit [Lock, ConnClose c, Unlock] p1)
            else
              let cs = conns p1 @ [c] in
              (False, emit [Lock, SetConns (Some cs), Unlock] (p1\<lparr>conns := cs\<rparr>)))"

text \<open>\<^verbatim>\<open>Size()\<close>.\<close>

definition Size :: "hostConnPool \<Rightarrow> int" where
  "Size p = int (length (conns p))"

text \<open>
  \<^verbatim>\<open>Pick(qry)\<close>.  \<open>pol\<close> is what \<^verbatim>\<open>pool.policy.Pick(qry)\<close> answers if it is asked.
\<close>

definition Pick :: "conn option \<Rightarrow> hostConnPool \<Rightarrow> conn option \<times> hostConnPool" where
  "Pick pol p =
     (let p1 = emit [RLock, RUnlock] p in
      if closed p then (None, p1)
      else
        let sz = int (length (conns p)) in
        if sz < size' p
        then
          let p2 = go Fill p1 in
          if sz = 0 then (None, p2) else (pol, emit [ConnPolicyPick] p2)
        else (pol, emit [ConnPolicyPick] p1))"

text \<open>\<^verbatim>\<open>Close()\<close>: the unlock is deferred.\<close>

definition Close :: "hostConnPool \<Rightarrow> hostConnPool" where
  "Close p =
     (if closed p then emit [Lock, Unlock] p
      else emit [Unlock] (go Drain (emit [Lock] (p\<lparr>closed := True\<rparr>))))"

text \<open>
  \<^verbatim>\<open>drain()\<close>: the unlock is deferred, so it comes after the loop that closes the
  connections.
\<close>

definition drain :: "hostConnPool \<Rightarrow> hostConnPool" where
  "drain p =
     emit ([Lock, SetConns None] @ map ConnClose (conns p) @ [Unlock]) (p\<lparr>conns := []\<rparr>)"

text \<open>
  The index at which the \<^verbatim>\<open>range\<close> loop of \<^verbatim>\<open>HandleError\<close> breaks: the first
  position that holds the connection.
\<close>

fun index_of :: "conn \<Rightarrow> conn list \<Rightarrow> nat option" where
  "index_of c [] = None"
| "index_of c (x # xs) = (if x = c then Some 0 else map_option Suc (index_of c xs))"

text \<open>
  \<^verbatim>\<open>pool.conns[i], pool.conns = pool.conns[len-1], pool.conns[:len-1]\<close>: the last
  element is written at \<open>i\<close>, then the slice loses its last position.
\<close>

definition remove_at :: "nat \<Rightarrow> conn list \<Rightarrow> conn list" where
  "remove_at i cs = butlast (cs[i := last cs])"

text \<open>\<^verbatim>\<open>HandleError(conn, err, closed)\<close>: \<open>err\<close> is never read.\<close>

definition HandleError :: "conn \<Rightarrow> error \<Rightarrow> bool \<Rightarrow> hostConnPool \<Rightarrow> hostConnPool" where
  "HandleError c err cl p =
     (if \<not> cl then p
      else if closed p then emit [Lock, Unlock] p
      else
        case index_of c (conns p) of
          None \<Rightarrow> emit [Lock, Unlock] p
        | Some i \<Rightarrow>
            let cs = remove_at i (conns p) in
            emit [Unlock] (go Fill (emit [Lock, SetConns (Some cs)] (p\<lparr>conns := cs\<rparr>))))"

text \<open>
  One move of a goroutine: from its point in the code to the next point at which the
  pool's lock is free, given the outcome of the dial it makes (if it makes one).  The
  result is the point it goes on from (\<open>None\<close> when it has returned) and the pool.
  Goroutines it starts are added to \<open>tasks\<close>.  The sleep of \<^verbatim>\<open>fillingStopped\<close> and
  \<^verbatim>\<open>logConnectErr\<close> change nothing in the pool and are left out.
\<close>

fun step :: "dial \<Rightarrow> task \<Rightarrow> hostConnPool \<Rightarrow> task option \<times> hostConnPool" where
  "step d Fill p =
     (let p1 = emit [RLock, RUnlock] p in
      if closed p \<or> filling p then (None, p1)
      else if size' p - int (length (conns p)) \<le> 0 then (None, p1)
      else (Some FillUpgrade, p1))"
| "step d FillUpgrade p =
     (let startCount = int (length (conns p));
          fillCount = size' p - startCount;
          p1 = emit [Lock] p in
      if closed p \<or> filling p \<or> fillCount \<le> 0 then (None, emit [Unlock] p1)
      else
        let p2 = emit [Unlock] (p1\<lparr>filling := True\<rparr>) in
        if startCount = 0 then (Some (FillFirst fillCount), p2)
        else (None, go (ConnectMany (nat fillCount)) p2))"
| "step d (FillFirst fillCount) p =
     (case connect d p of
        (True, p1) \<Rightarrow> (Some (FillingStopped True), p1)
      | (False, p1) \<Rightarrow> (Some (ConnectMany (nat (fillCount - 1))), p1))"
| "step d (ConnectMany (Suc k)) p = (Some (ConnectMany k), snd (connect d p))"
| "step d (ConnectMany 0) p = (Some (FillingStopped False), p)"
| "step d (FillingStopped nd) p =
     (let p1 = emit [Lock, Unlock] (p\<lparr>filling := False\<rparr>) in
      (None, if nd then go HandleNodeDown p1 else p1))"
| "step d Drain p = (None, drain p)"
| "step d HandleNodeDown p = (None, p)"

text \<open>Whether the next move of a goroutine calls \<^verbatim>\<open>session.connect\<close>.\<close>

fun dials :: "task \<Rightarrow> bool" where
  "dials (FillFirst _) = True"
| "dials (ConnectMany (Suc _)) = True"
| "dials _ = False"

text \<open>
  A bound on the moves a goroutine has left: \<^verbatim>\<open>fill\<close> makes at most \<^verbatim>\<open>size\<close>
  connects.
\<close>

fun rank :: "task \<Rightarrow> hostConnPool \<Rightarrow> nat" where
  "rank Fill p = nat (size' p) + 5"
| "rank FillUpgrade p = nat (size' p) + 4"
| "rank (FillFirst n) p = nat (n - 1) + 3"
| "rank (ConnectMany k) p = k + 2"
| "rank (FillingStopped _) p = 1"
| "rank Drain p = 1"
| "rank HandleNodeDown p = 1"

text \<open>
  A goroutine run to its return with nothing else touching the pool in between; \<open>ds\<close>
  gives the outcomes of the dials it makes, in order.
\<close>

function run :: "(nat \<Rightarrow> dial) \<Rightarrow> task \<Rightarrow> hostConnPool \<Rightarrow> hostConnPool" where
  "run ds t p =
     (case step (ds 0) t p of
        (None, p') \<Rightarrow> p'
      | (Some t', p') \<Rightarrow> run (if dials t then (\<lambda>i. ds (Suc i)) else ds) t' p')"
  by pat_completeness auto
termination
proof (relation "measure (\<lambda>(ds, t, p). rank t p)")
  show "wf (measure (\<lambda>(ds :: nat \<Rightarrow> dial, t, p). rank t p))"
    by simp
next
  fix ds :: "nat \<Rightarrow> dial" and t p x p' t'
  assume x: "(x, p') = step (ds 0) t p" and s: "x = Some t'"
  have st: "step (ds 0) t p = (Some t', p')"
    using x s by simp
  have "rank t' p' < rank t p"
  proof (cases t)
    case Fill
    with st show ?thesis by (auto simp: Let_def emit_def split: if_splits)
  next
    case FillUpgrade
    with st show ?thesis by (auto simp: Let_def emit_def go_def split: if_splits)
  next
    case (FillFirst n)
    with st show ?thesis by (auto split: prod.splits bool.splits)
  next
    case (ConnectMany k)
    with st show ?thesis by (cases k) auto
  next
    case (FillingStopped nd)
    with st show ?thesis by (simp add: Let_def)
  next
    case Drain
    with st show ?thesis by simp
  next
    case HandleNodeDown
    with st show ?thesis by simp
  qed
  then show "((if dials t then \<lambda>i. ds (Suc i) else ds, t', p'), ds, t, p)
      \<in> measure (\<lambda>(ds, t, p). rank t p)"
    by simp
qed

declare run.simps [simp del]

text \<open>
  \<^verbatim>\<open>make([]*Conn, 0, size)\<close> panics on a negative capacity; a candidate host without
  \<^verbatim>\<open>Info()\<close> makes \<^verbatim>\<open>policyConnPool.Pick\<close> panic; calling a method of a nil pool
  panics.
\<close>

datatype panic = MakeSliceCap | NoHostInfo | NilPool

definition empty_pool :: "HostInfo \<Rightarrow> int \<Rightarrow> int \<Rightarrow> string \<Rightarrow> hostConnPool" where
  "empty_pool h prt sz ks =
     \<lparr>host = h, port = prt, size' = sz, keyspace = ks, conns = [], closed = False,
      filling = False, trace = [], tasks = []\<rparr>"

text \<open>
  \<^verbatim>\<open>newHostConnPool\<close>: builds the struct and calls \<^verbatim>\<open>pool.fill()\<close> before returning.
  \<open>ds\<close> gives the outcomes of the dials of that first fill.
\<close>

definition newHostConnPool ::
  "HostInfo \<Rightarrow> int \<Rightarrow> int \<Rightarrow> string \<Rightarrow> (nat \<Rightarrow> dial) \<Rightarrow> panic + hostConnPool" where
  "newHostConnPool h prt sz ks ds =
     (if sz < 0 then Inl MakeSliceCap else Inr (run ds Fill (empty_pool h prt sz ks)))"

section \<open>The pool under interleaving\<close>

text \<open>
  \<^verbatim>\<open>session.connect\<close> hands out a connection object of its own making, so it is none of
  the connections the pool holds.
\<close>

fun new_conn :: "dial \<Rightarrow> hostConnPool \<Rightarrow> bool" where
  "new_conn DialErr p = True"
| "new_conn (Dialed c ks) p = (c \<notin> set (conns p))"

text \<open>
  One move of the system around a pool.  Every section of the code that holds
  \<^verbatim>\<open>pool.mu\<close> is one move; between two moves any other goroutine may move.
  \<^item> \<open>sched\<close>: one of the goroutines in \<open>tasks\<close> makes its next move;
  \<^item> \<open>pick\<close>, \<open>handle\<close>, \<open>close\<close>: a caller runs \<^verbatim>\<open>Pick\<close>, \<^verbatim>\<open>HandleError\<close> or
    \<^verbatim>\<open>Close\<close>;
  \<^item> \<open>refill\<close>: the owner runs \<^verbatim>\<open>go pool.fill()\<close> (\<^verbatim>\<open>addHost\<close> on a tracked host).
\<close>

inductive moves :: "hostConnPool \<Rightarrow> hostConnPool \<Rightarrow> bool" where
  sched: "tasks p = ts1 @ t # ts2 \<Longrightarrow> new_conn d p \<Longrightarrow>
          step d t (p\<lparr>tasks := ts1 @ ts2\<rparr>) = (t', p') \<Longrightarrow>
          moves p (p'\<lparr>tasks := tasks p' @ (case t' of None \<Rightarrow> [] | Some u \<Rightarrow> [u])\<rparr>)"
| pick: "moves p (snd (Pick pol p))"
| handle: "moves p (HandleError c err cl p)"
| close: "moves p (Close p)"
| refill: "moves p (go Fill p)"

text \<open>
  The states a pool can be in: \<^verbatim>\<open>newHostConnPool\<close> has built the struct (which needs a
  capacity that is not negative) and is about to call \<^verbatim>\<open>fill\<close>, and then any moves.
\<close>

inductive reachable :: "hostConnPool \<Rightarrow> bool" where
  init: "0 \<le> sz \<Longrightarrow> reachable (go Fill (empty_pool h prt sz ks))"
| later: "reachable p \<Longrightarrow> moves p p' \<Longrightarrow> reachable p'"

text \<open>
  The connects a goroutine may still make, and whether it is the one that holds
  \<^verbatim>\<open>filling\<close>.
\<close>

fun pend :: "task \<Rightarrow> int" where
  "pend (FillFirst n) = 1 + int (nat (n - 1))"
| "pend (ConnectMany k) = int k"
| "pend _ = 0"

fun active :: "task \<Rightarrow> bool" where
  "active (FillFirst _) = True"
| "active (ConnectMany _) = True"
| "active (FillingStopped _) = True"
| "active _ = False"

text \<open>
  What single-flight filling keeps true: the connections held and the connects still to
  come fit in the target size, at most one goroutine holds \<^verbatim>\<open>filling\<close>, and none does
  when the flag is clear.
\<close>

definition fill_inv :: "hostConnPool \<Rightarrow> bool" where
  "fill_inv p \<longleftrightarrow>
     int (length (conns p)) + sum_list (map pend (tasks p)) \<le> size' p \<and>
     length (filter active (tasks p)) \<le> 1 \<and>
     (\<not> filling p \<longrightarrow> filter active (tasks p) = [])"

text \<open>
  Whether the write lock is held when each event of a trace happens: the trace is
  paired with the state of the lock before each event.
\<close>

fun locked_at :: "bool \<Rightarrow> event list \<Rightarrow> (bool \<times> event) list" where
  "locked_at h [] = []"
| "locked_at h (Lock # es) = (h, Lock) # locked_at True es"
| "locked_at h (Unlock # es) = (h, Unlock) # locked_at False es"
| "locked_at h (e # es) = (h, e) # locked_at h es"

section \<open>The pool of pools\<close>

text \<open>
  A candidate of the host iterator: \<^verbatim>\<open>Info()\<close> may be nil.
\<close>

datatype SelectedHost = SelectedHost (Info: "HostInfo option")

text \<open>The calls made on the \<^verbatim>\<open>HostSelectionPolicy\<close>.\<close>

datatype policy_call =
    PolicySetHosts "HostInfo list"
  | PolicyAddHost HostInfo
  | PolicyRemoveHost string

text \<open>
  The struct \<^verbatim>\<open>policyConnPool\<close>.  The map from address to pool is a list of pairs with
  one pair for a key; \<^verbatim>\<open>range\<close> over it takes the list's order.  \<open>hostPolicy\<close> holds
  the calls made on the host policy, oldest first.  \<open>detached\<close> is not a field: it keeps
  the pools that were deleted from the map, as \<^verbatim>\<open>Close()\<close> left them.
\<close>

record policyConnPool =
  cfg_port :: int
  numConns :: int
  cfg_keyspace :: string
  hostConnPools :: "(string \<times> hostConnPool) list"
  hostPolicy :: "policy_call list"
  detached :: "hostConnPool list"




text \<open>The second loop: pools are taken from the channel as they arrive.\<close>

fun addCreated :: "hostConnPool list \<Rightarrow> (string \<times> hostConnPool) list \<Rightarrow> (string \<times> hostConnPool) list" where
  "addCreated [] m = m"
| "addCreated (pool # pools) m =
     addCreated pools (if Size pool > 0 then AList.update (Peer (host pool)) pool m else m)"




text \<open>\<^verbatim>\<open>addHost(host)\<close> and \<^verbatim>\<open>hostUp(host)\<close>.\<close>

definition addHost :: "HostInfo \<Rightarrow> (nat \<Rightarrow> dial) \<Rightarrow> policyConnPool \<Rightarrow> panic + policyConnPool" where
  "addHost h ds p =
     (case map_of (hostConnPools p) (Peer h) of
        Some pool \<Rightarrow> Inr (p\<lparr>hostConnPools := AList.update (Peer h) (go Fill pool) (hostConnPools p)\<rparr>)
      | None \<Rightarrow>
          (case newHostConnPool h (Port h) (numConns p) (cfg_keyspace p) ds of
             Inl e \<Rightarrow> Inl e
           | Inr pool \<Rightarrow>
               Inr (p\<lparr>hostConnPools := AList.update (Peer h) pool (hostConnPools p),
                      hostPolicy := hostPolicy p @ [PolicyAddHost h]\<rparr>)))"

definition hostUp :: "HostInfo \<Rightarrow> (nat \<Rightarrow> dial) \<Rightarrow> policyConnPool \<Rightarrow> panic + policyConnPool" where
  "hostUp h ds p = addHost h ds p"


text \<open>
  The loop of \<^verbatim>\<open>policyConnPool.Pick\<close>.  \<open>nextHost i\<close> is what the \<open>i\<close>-th call of the
  iterator returns (\<open>None\<close> is nil) and \<open>cp i\<close> what the connection policy of the pool
  tried at that call answers if asked.  The loop runs until the iterator returns nil or a
  pool gives a connection, and not returning is the value \<open>None\<close>.
\<close>

partial_function (option) pickLoop ::
  "(nat \<Rightarrow> SelectedHost option) \<Rightarrow> (nat \<Rightarrow> conn option) \<Rightarrow> nat \<Rightarrow> policyConnPool \<Rightarrow>
   (panic + SelectedHost option \<times> conn option \<times> policyConnPool) option" where
  "pickLoop nextHost cp i p =
     (case nextHost i of
        None \<Rightarrow> Some (Inr (None, None, p))
      | Some h \<Rightarrow>
          (case Info h of
             None \<Rightarrow> Some (Inl NoHostInfo)
           | Some info \<Rightarrow>
               (case map_of (hostConnPools p) (Peer info) of
                  None \<Rightarrow> pickLoop nextHost cp (Suc i) p
                | Some pool \<Rightarrow>
                    (let r = Pick (cp i) pool;
                         p' = p\<lparr>hostConnPools := AList.update (Peer info) (snd r) (hostConnPools p)\<rparr>
                     in case fst r of
                          None \<Rightarrow> pickLoop nextHost cp (Suc i) p'
                        | Some c \<Rightarrow> Some (Inr (Some h, Some c, p'))))))"

definition policyPick ::
  "(nat \<Rightarrow> SelectedHost option) \<Rightarrow> (nat \<Rightarrow> conn option) \<Rightarrow> policyConnPool \<Rightarrow>
   (panic + SelectedHost option \<times> conn option \<times> policyConnPool) option" where
  "policyPick nextHost cp p = pickLoop nextHost cp 0 p"

text \<open>
  What the candidate of call \<open>i\<close> gives: nothing when its address has no pool, else what
  the pool's \<^verbatim>\<open>Pick\<close> returns.
\<close>

definition yield :: "policyConnPool \<Rightarrow> conn option \<Rightarrow> HostInfo \<Rightarrow> conn option" where
  "yield p pol info =
     (case map_of (hostConnPools p) (Peer info) of
        None \<Rightarrow> None
      | Some pool \<Rightarrow> fst (Pick pol pool))"


text \<open>Two hosts for the concrete instances below.\<close>

abbreviation hostA :: HostInfo where
  "hostA \<equiv> \<lparr>Peer = ''A'', Port = 9042, IsUp = True\<rparr>"

abbreviation hostB :: HostInfo where
  "hostB \<equiv> \<lparr>Peer = ''B'', Port = 9042, IsUp = True\<rparr>"

section \<open>Properties of the per-host pool\<close>

lemma index_of_None: "index_of c cs = None \<longleftrightarrow> c \<notin> set cs"
  by (induction cs) auto

lemma index_of_Some: "index_of c cs = Some i \<Longrightarrow> i < length cs \<and> cs ! i = c"
  by (induction cs arbitrary: i) (auto split: if_splits)

lemma index_of_first: "index_of c cs = Some i \<Longrightarrow> j < i \<Longrightarrow> cs ! j \<noteq> c"
proof (induction cs arbitrary: i j)
  case Nil
  then show ?case by simp
next
  case (Cons x xs)
  then show ?case by (cases j) (auto split: if_splits)
qed

lemma mset_remove_at: "i < length cs \<Longrightarrow> mset (remove_at i cs) = mset cs - {#cs ! i#}"
proof (cases cs rule: rev_cases)
  case Nil
  assume "i < length cs"
  with Nil show ?thesis by simp
next
  case (snoc ys l)
  assume i: "i < length cs"
  show ?thesis
  proof (cases "i = length ys")
    case True
    with snoc show ?thesis by (simp add: remove_at_def)
  next
    case False
    with i snoc have iy: "i < length ys" by simp
    then have "ys ! i \<in># mset ys" by simp
    with snoc iy show ?thesis
      by (simp add: remove_at_def list_update_append nth_append mset_update)
  qed
qed

lemma length_remove_at: "length (remove_at i cs) = length cs - 1"
  by (simp add: remove_at_def)

lemma distinct_remove_at:
  assumes "distinct cs" "i < length cs"
  shows "distinct (remove_at i cs) \<and> set (remove_at i cs) = set cs - {cs ! i}"
proof -
  have m: "mset (remove_at i cs) = mset cs - {#cs ! i#}"
    using assms(2) by (rule mset_remove_at)
  have c: "count (mset (remove_at i cs)) x = (if x \<in> set cs \<and> x \<noteq> cs ! i then 1 else 0)" for x
    using assms by (simp add: m distinct_count_atmost_1 [THEN iffD1])
  have s: "set (remove_at i cs) = set cs - {cs ! i}"
  proof (rule set_eqI)
    fix x
    have "x \<in> set (remove_at i cs) \<longleftrightarrow> 0 < count (mset (remove_at i cs)) x"
      by (simp del: count_mset)
    then show "x \<in> set (remove_at i cs) \<longleftrightarrow> x \<in> set cs - {cs ! i}"
      by (simp add: c del: count_mset)
  qed
  have "distinct (remove_at i cs)"
    unfolding distinct_count_atmost_1 using c s by auto
  with s show ?thesis by simp
qed


text \<open>
  Claim C10.  On a pool whose \<^verbatim>\<open>closed\<close> flag is set, \<^verbatim>\<open>HandleError(conn, err, true)\<close>
  takes the lock and returns: the connections, the goroutines and both flags are as
  before, and nothing but the lock and its release is added to the trace (no
  \<^verbatim>\<open>SetConns\<close>, no \<^verbatim>\<open>go pool.fill()\<close>).  This holds for every \<open>c\<close>, also one that is
  still in \<^verbatim>\<open>conns\<close>.
\<close>
theorem HandleError_on_closed_pool:
  "closed p \<Longrightarrow>
     HandleError c err True p = emit [Lock, Unlock] p \<and>
     conns (HandleError c err True p) = conns p \<and>
     tasks (HandleError c err True p) = tasks p \<and>
     trace (HandleError c err True p) = trace p @ [Lock, Unlock] \<and>
     closed (HandleError c err True p) \<and>
     filling (HandleError c err True p) = filling p"
  by (simp add: HandleError_def emit_def)

theorem HandleError_on_closed_pool_witness:
  "closed ((empty_pool hostA 9042 2 [])\<lparr>conns := [1, 2], closed := True\<rparr>) \<and>
   1 \<in> set (conns ((empty_pool hostA 9042 2 [])\<lparr>conns := [1, 2], closed := True\<rparr>)) \<and>
   conns (HandleError 1 ''EOF'' True ((empty_pool hostA 9042 2 [])\<lparr>conns := [1, 2], closed := True\<rparr>))
     = [1, 2] \<and>
   tasks (HandleError 1 ''EOF'' True ((empty_pool hostA 9042 2 [])\<lparr>conns := [1, 2], closed := True\<rparr>))
     = [] \<and>
   trace (HandleError 1 ''EOF'' True ((empty_pool hostA 9042 2 [])\<lparr>conns := [1, 2], closed := True\<rparr>))
     = [Lock, Unlock]"
  using HandleError_on_closed_pool
    [of "(empty_pool hostA 9042 2 [])\<lparr>conns := [1, 2], closed := True\<rparr>" 1 "''EOF''"]
  by (simp add: empty_pool_def emit_def)

text \<open>
  Claim C9.  \<^verbatim>\<open>Close\<close> on a closed pool only takes and releases the lock.  On a pool
  that is not closed it sets \<^verbatim>\<open>closed\<close> and starts \<^verbatim>\<open>drain\<close> as a goroutine, leaving
  the connections where they are.  A second \<^verbatim>\<open>Close\<close> starts no second \<^verbatim>\<open>drain\<close>.
  \<^verbatim>\<open>Close\<close> returns no value, so there is no error to produce.
\<close>
theorem Close_idempotent:
  "(closed p \<longrightarrow> Close p = emit [Lock, Unlock] p) \<and>
   (\<not> closed p \<longrightarrow>
      Close p = emit [Unlock] (go Drain (emit [Lock] (p\<lparr>closed := True\<rparr>))) \<and>
      closed (Close p) \<and> tasks (Close p) = tasks p @ [Drain] \<and> conns (Close p) = conns p \<and>
      trace (Close p) = trace p @ [Lock, Unlock]) \<and>
   Close (Close p) = emit [Lock, Unlock] (Close p) \<and>
   tasks (Close (Close p)) = tasks (Close p) \<and>
   conns (Close (Close p)) = conns (Close p) \<and>
   closed (Close (Close p))"
  by (simp add: Close_def emit_def go_def)

theorem Close_idempotent_witness:
  "\<not> closed ((empty_pool hostA 9042 2 [])\<lparr>conns := [1, 2]\<rparr>) \<and>
   closed (Close ((empty_pool hostA 9042 2 [])\<lparr>conns := [1, 2]\<rparr>)) \<and>
   tasks (Close ((empty_pool hostA 9042 2 [])\<lparr>conns := [1, 2]\<rparr>)) = [Drain] \<and>
   conns (Close ((empty_pool hostA 9042 2 [])\<lparr>conns := [1, 2]\<rparr>)) = [1, 2] \<and>
   tasks (Close (Close ((empty_pool hostA 9042 2 [])\<lparr>conns := [1, 2]\<rparr>))) = [Drain] \<and>
   trace (Close (Close ((empty_pool hostA 9042 2 [])\<lparr>conns := [1, 2]\<rparr>)))
     = [Lock, Unlock, Lock, Unlock]"
  using Close_idempotent [of "(empty_pool hostA 9042 2 [])\<lparr>conns := [1, 2]\<rparr>"]
    Close_idempotent [of "Close ((empty_pool hostA 9042 2 [])\<lparr>conns := [1, 2]\<rparr>)"]
  by (simp add: empty_pool_def emit_def go_def Close_def)

text \<open>
  Claim C8, as stated, fails on a pool whose target size is 0: with no connections and
  \<^verbatim>\<open>closed\<close> unset, \<^verbatim>\<open>size < pool.size\<close> is false, so \<^verbatim>\<open>Pick\<close> starts no fill and
  returns what the connection policy answers.
\<close>
theorem Pick_empty_pool_of_size_zero:
  "\<not> closed (empty_pool hostA 9042 0 []) \<and>
   conns (empty_pool hostA 9042 0 []) = [] \<and>
   fst (Pick (Some 7) (empty_pool hostA 9042 0 [])) = Some 7 \<and>
   trace (snd (Pick (Some 7) (empty_pool hostA 9042 0 []))) = [RLock, RUnlock, ConnPolicyPick] \<and>
   tasks (snd (Pick (Some 7) (empty_pool hostA 9042 0 []))) = []"
  by (simp add: Pick_def empty_pool_def emit_def go_def)

text \<open>
  Claim C8, amended.  On a pool that is not closed, holds no connection and has a positive
  target size, \<^verbatim>\<open>Pick\<close> returns nil without asking the connection policy and starts
  \<^verbatim>\<open>go pool.fill()\<close>.  On a closed pool \<^verbatim>\<open>Pick\<close> returns nil and starts nothing.
\<close>

theorem Pick_without_connections:
  "(\<not> closed p \<and> conns p = [] \<and> 0 < size' p \<longrightarrow>
      Pick pol p = (None, go Fill (emit [RLock, RUnlock] p))) \<and>
   (closed p \<longrightarrow> Pick pol p = (None, emit [RLock, RUnlock] p))"
  by (simp add: Pick_def Let_def)

theorem Pick_without_connections_witness:
  "\<not> closed (empty_pool hostA 9042 2 []) \<and> conns (empty_pool hostA 9042 2 []) = [] \<and>
   0 < size' (empty_pool hostA 9042 2 []) \<and>
   fst (Pick (Some 7) (empty_pool hostA 9042 2 [])) = None \<and>
   tasks (snd (Pick (Some 7) (empty_pool hostA 9042 2 []))) = [Fill] \<and>
   trace (snd (Pick (Some 7) (empty_pool hostA 9042 2 []))) = [RLock, RUnlock] \<and>
   closed ((empty_pool hostA 9042 2 [])\<lparr>closed := True\<rparr>) \<and>
   fst (Pick (Some 7) ((empty_pool hostA 9042 2 [])\<lparr>closed := True\<rparr>)) = None \<and>
   tasks (snd (Pick (Some 7) ((empty_pool hostA 9042 2 [])\<lparr>closed := True\<rparr>))) = []"
  using Pick_without_connections [of "empty_pool hostA 9042 2 []" "Some 7"]
    Pick_without_connections [of "(empty_pool hostA 9042 2 [])\<lparr>closed := True\<rparr>" "Some 7"]
  by (simp add: empty_pool_def emit_def go_def Pick_def)

text \<open>
  Claim C5, as stated, fails where it says that the detached connections are closed
  outside the lock: the unlock of \<^verbatim>\<open>drain\<close> is deferred, so every \<^verbatim>\<open>conn.Close()\<close>
  happens while the lock is held.
\<close>
theorem drain_closes_under_lock:
  "trace (drain ((empty_pool hostA 9042 2 [])\<lparr>conns := [1, 2], closed := True\<rparr>))
     = [Lock, SetConns None, ConnClose 1, ConnClose 2, Unlock] \<and>
   locked_at False (trace (drain ((empty_pool hostA 9042 2 [])\<lparr>conns := [1, 2], closed := True\<rparr>)))
     = [(False, Lock), (True, SetConns None), (True, ConnClose 1), (True, ConnClose 2),
        (True, Unlock)]"
  by (simp add: drain_def empty_pool_def emit_def)

lemma locked_at_closes:
  "locked_at h (map ConnClose cs @ es) = map (\<lambda>c. (h, ConnClose c)) cs @ locked_at h es"
  by (induction cs) auto

text \<open>
  Claim C5, amended.  \<^verbatim>\<open>drain\<close> takes the lock, replaces \<^verbatim>\<open>conns\<close> by the empty
  collection, gives the nil snapshot to the connection policy, closes each of the
  connections it detached, in their order, still holding the lock, and releases the lock on
  return.  After it the pool holds no connection; the flags and goroutines are untouched.
\<close>

theorem drain_detaches_all:
  "drain p = emit (Lock # SetConns None # map ConnClose (conns p) @ [Unlock]) (p\<lparr>conns := []\<rparr>) \<and>
   conns (drain p) = [] \<and>
   trace (drain p) = trace p @ Lock # SetConns None # map ConnClose (conns p) @ [Unlock] \<and>
   locked_at False (Lock # SetConns None # map ConnClose (conns p) @ [Unlock])
     = (False, Lock) # (True, SetConns None) # map (\<lambda>c. (True, ConnClose c)) (conns p)
       @ [(True, Unlock)] \<and>
   closed (drain p) = closed p \<and> filling (drain p) = filling p \<and> tasks (drain p) = tasks p"
  by (simp add: drain_def emit_def locked_at_closes)

text \<open>
  Claim C4.  On a pool that is not closed and holds \<open>c\<close> (the connections being distinct
  objects), \<^verbatim>\<open>HandleError(c, err, true)\<close> removes \<open>c\<close> by writing the last connection
  over the first position of \<open>c\<close> and cutting the last position off, gives the remaining
  connections to the connection policy, and starts \<^verbatim>\<open>go pool.fill()\<close>; the flags stay.
  A second call for \<open>c\<close> only takes and releases the lock.
\<close>
theorem HandleError_removes_connection:
  assumes "\<not> closed p" and "c \<in> set (conns p)" and "distinct (conns p)"
  shows "\<exists>i. index_of c (conns p) = Some i \<and>
           conns (HandleError c err True p) = butlast ((conns p)[i := last (conns p)]) \<and>
           c \<notin> set (conns (HandleError c err True p)) \<and>
           set (conns (HandleError c err True p)) = set (conns p) - {c} \<and>
           length (conns (HandleError c err True p)) = length (conns p) - 1 \<and>
           trace (HandleError c err True p)
             = trace p @ [Lock, SetConns (Some (conns (HandleError c err True p))), Unlock] \<and>
           tasks (HandleError c err True p) = tasks p @ [Fill] \<and>
           closed (HandleError c err True p) = closed p \<and>
           filling (HandleError c err True p) = filling p \<and>
           HandleError c err' True (HandleError c err True p)
             = emit [Lock, Unlock] (HandleError c err True p)"
proof -
  obtain i where i: "index_of c (conns p) = Some i"
    using assms(2) index_of_None [of c "conns p"] by (cases "index_of c (conns p)") auto
  then have il: "i < length (conns p)" and ic: "conns p ! i = c"
    using index_of_Some by auto
  have h: "HandleError c err True p
      = emit [Unlock] (go Fill (emit [Lock, SetConns (Some (remove_at i (conns p)))]
          (p\<lparr>conns := remove_at i (conns p)\<rparr>)))"
    using assms(1) i by (simp add: HandleError_def Let_def)
  have cs: "conns (HandleError c err True p) = remove_at i (conns p)"
    by (simp add: h emit_def go_def)
  have s: "set (remove_at i (conns p)) = set (conns p) - {c}"
    using distinct_remove_at [OF assms(3) il] ic by simp
  then have gone: "index_of c (remove_at i (conns p)) = None"
    by (simp add: index_of_None)
  have again: "HandleError c err' True (HandleError c err True p)
      = emit [Lock, Unlock] (HandleError c err True p)"
    using assms(1) gone cs by (simp add: HandleError_def)
  show ?thesis
    using i cs s again assms(1)
    by (simp add: length_remove_at h emit_def go_def remove_at_def)
qed

theorem HandleError_removes_connection_witness:
  "\<not> closed ((empty_pool hostA 9042 3 [])\<lparr>conns := [1, 2, 3]\<rparr>) \<and>
   1 \<in> set (conns ((empty_pool hostA 9042 3 [])\<lparr>conns := [1, 2, 3]\<rparr>)) \<and>
   distinct (conns ((empty_pool hostA 9042 3 [])\<lparr>conns := [1, 2, 3]\<rparr>)) \<and>
   conns (HandleError 1 ''EOF'' True ((empty_pool hostA 9042 3 [])\<lparr>conns := [1, 2, 3]\<rparr>)) = [3, 2] \<and>
   trace (HandleError 1 ''EOF'' True ((empty_pool hostA 9042 3 [])\<lparr>conns := [1, 2, 3]\<rparr>))
     = [Lock, SetConns (Some [3, 2]), Unlock] \<and>
   tasks (HandleError 1 ''EOF'' True ((empty_pool hostA 9042 3 [])\<lparr>conns := [1, 2, 3]\<rparr>)) = [Fill] \<and>
   conns (HandleError 1 ''EOF'' True
     (HandleError 1 ''EOF'' True ((empty_pool hostA 9042 3 [])\<lparr>conns := [1, 2, 3]\<rparr>))) = [3, 2]"
  using HandleError_removes_connection
    [of "(empty_pool hostA 9042 3 [])\<lparr>conns := [1, 2, 3]\<rparr>" 1 "''EOF''" "''EOF''"]
  by (simp add: empty_pool_def emit_def go_def HandleError_def remove_at_def)



section \<open>The size bound under interleaving\<close>

lemma pend_nonneg: "0 \<le> pend t"
  by (cases t) auto

lemma sum_pend_nonneg: "0 \<le> sum_list (map pend ts)"
  by (induction ts) (auto simp: pend_nonneg add_nonneg_nonneg)

lemma pend_inactive: "\<not> active t \<Longrightarrow> pend t = 0"
  by (cases t) auto

lemma sum_pend_inactive: "filter active ts = [] \<Longrightarrow> sum_list (map pend ts) = 0"
  by (induction ts) (auto simp: pend_inactive split: if_splits)

lemma connect_effect:
  "connect d p = (e, p') \<Longrightarrow>
     size' p' = size' p \<and> tasks p' = tasks p \<and> filling p' = filling p \<and>
     closed p' = closed p \<and>
     (conns p' = conns p \<or> (\<not> closed p \<and> \<not> e \<and> (\<exists>c. d = Dialed c True \<or> d = Dialed c False) \<and> (\<exists>c ks. d = Dialed c ks \<and> conns p' = conns p @ [c])))"
  by (cases d) (auto simp: connect_def emit_def Let_def split: if_splits)

lemma fill_inv_init: "0 \<le> sz \<Longrightarrow> fill_inv (go Fill (empty_pool h prt sz ks))"
  by (simp add: fill_inv_def go_def empty_pool_def)

lemma fill_inv_step:
  assumes inv: "fill_inv p" and ts: "tasks p = ts1 @ t # ts2"
    and st: "step d t (p\<lparr>tasks := ts1 @ ts2\<rparr>) = (t', p')"
  shows "fill_inv (p'\<lparr>tasks := tasks p' @ (case t' of None \<Rightarrow> [] | Some u \<Rightarrow> [u])\<rparr>)"
proof (cases t)
  case Fill
  with inv ts st show ?thesis
    by (auto simp: fill_inv_def Let_def emit_def split: if_splits)
next
  case FillUpgrade
  show ?thesis
  proof (cases "closed p \<or> filling p \<or> size' p - int (length (conns p)) \<le> 0")
    case True
    with FillUpgrade inv ts st show ?thesis
      by (auto simp: fill_inv_def Let_def emit_def split: if_splits)
  next
    case False
    then have "filter active (tasks p) = []"
      using inv by (simp add: fill_inv_def)
    then have na: "filter active ts1 = []" "filter active ts2 = []"
      using ts by (auto split: if_splits)
    then have "sum_list (map pend ts1) = 0" "sum_list (map pend ts2) = 0"
      by (simp_all add: sum_pend_inactive)
    with False FillUpgrade inv ts st na show ?thesis
      by (auto simp: fill_inv_def Let_def emit_def go_def split: if_splits)
  qed
next
  case (FillFirst n)
  obtain e q where c: "connect d (p\<lparr>tasks := ts1 @ ts2\<rparr>) = (e, q)"
    by (cases "connect d (p\<lparr>tasks := ts1 @ ts2\<rparr>)")
  from connect_effect [OF c] FillFirst inv ts st c show ?thesis
    by (cases e) (auto simp: fill_inv_def split: if_splits)
next
  case (ConnectMany k)
  obtain e q where c: "connect d (p\<lparr>tasks := ts1 @ ts2\<rparr>) = (e, q)"
    by (cases "connect d (p\<lparr>tasks := ts1 @ ts2\<rparr>)")
  from connect_effect [OF c] ConnectMany inv ts st c show ?thesis
    by (cases k) (auto simp: fill_inv_def split: if_splits)
next
  case (FillingStopped nd)
  have "length (filter active ts1) + length (filter active ts2) = 0"
    using inv ts FillingStopped by (simp add: fill_inv_def)
  then have na: "filter active ts1 = []" "filter active ts2 = []"
    by simp_all
  with FillingStopped inv ts st show ?thesis
    by (auto simp: fill_inv_def Let_def emit_def go_def split: if_splits)
next
  case Drain
  have "0 \<le> int (length (conns p))" by simp
  with Drain inv ts st show ?thesis
    by (auto simp: fill_inv_def drain_def emit_def split: if_splits)
next
  case HandleNodeDown
  with inv ts st show ?thesis
    by (auto simp: fill_inv_def split: if_splits)
qed

lemma fill_inv_moves: "moves p p' \<Longrightarrow> fill_inv p \<Longrightarrow> fill_inv p'"
proof (induction rule: moves.induct)
  case (sched p ts1 t ts2 d t' p')
  then show ?case by (simp add: fill_inv_step)
next
  case (pick p pol)
  then show ?case by (auto simp: fill_inv_def Pick_def Let_def emit_def go_def)
next
  case (handle p c err cl)
  then show ?case
    by (auto simp: fill_inv_def HandleError_def Let_def emit_def go_def length_remove_at
        split: option.splits)
next
  case (close p)
  then show ?case by (auto simp: fill_inv_def Close_def emit_def go_def)
next
  case (refill p)
  then show ?case by (auto simp: fill_inv_def go_def)
qed

lemma reachable_fill_inv: "reachable p \<Longrightarrow> fill_inv p"
  by (induction rule: reachable.induct) (auto simp: fill_inv_init fill_inv_moves)

lemma step_closed:
  "step d t q = (t', p') \<Longrightarrow> closed q \<Longrightarrow> closed p' \<and> (conns p' = conns q \<or> conns p' = [])"
proof (cases t)
  case (FillFirst n)
  assume a: "step d t q = (t', p')" "closed q"
  obtain e r where c: "connect d q = (e, r)" by (cases "connect d q")
  from connect_effect [OF c] a FillFirst c show ?thesis by (cases e) auto
next
  case (ConnectMany k)
  assume a: "step d t q = (t', p')" "closed q"
  obtain e r where c: "connect d q = (e, r)" by (cases "connect d q")
  from connect_effect [OF c] a ConnectMany c show ?thesis by (cases k) auto
qed (auto simp: Let_def emit_def go_def drain_def split: if_splits)

lemma moves_closed:
  "moves p p' \<Longrightarrow> closed p \<Longrightarrow> closed p' \<and> (conns p' = conns p \<or> conns p' = [])"
proof (induction rule: moves.induct)
  case (sched p ts1 t ts2 d t' p')
  from step_closed [OF sched(3)] sched(4) show ?case by simp
qed (auto simp: Pick_def HandleError_def Close_def emit_def go_def Let_def)

lemma moves_star_closed:
  "moves\<^sup>*\<^sup>* p p' \<Longrightarrow> closed p \<Longrightarrow> closed p' \<and> (conns p' = conns p \<or> conns p' = [])"
proof (induction rule: rtranclp_induct)
  case base
  then show ?case by simp
next
  case (step y z)
  with moves_closed [of y z] show ?case by auto
qed

text \<open>
  Claim C1.  In every state a pool can reach from its construction, under any
  interleaving of \<^verbatim>\<open>Pick\<close>, \<^verbatim>\<open>fill\<close>, \<^verbatim>\<open>connect\<close>, \<^verbatim>\<open>HandleError\<close>,
  \<^verbatim>\<open>Close\<close> and \<^verbatim>\<open>drain\<close>, the number of connections is at most the target size.
  Once \<^verbatim>\<open>closed\<close> is set it stays set, and after any further moves the connections are
  the ones held then or none at all: no connection is added.
\<close>

theorem conns_within_size:
  "reachable p \<Longrightarrow>
     int (length (conns p)) \<le> size' p \<and>
     (\<forall>p'. closed p \<and> moves\<^sup>*\<^sup>* p p' \<longrightarrow>
        closed p' \<and> (conns p' = conns p \<or> conns p' = []))"
proof -
  assume "reachable p"
  then have "fill_inv p" by (rule reachable_fill_inv)
  then have "int (length (conns p)) \<le> size' p"
    using sum_pend_nonneg [of "tasks p"] by (simp add: fill_inv_def)
  then show ?thesis
    using moves_star_closed by blast
qed


lemma distinct_moves: "moves p p' \<Longrightarrow> distinct (conns p) \<Longrightarrow> distinct (conns p')"
proof (induction rule: moves.induct)
  case (sched p ts1 t ts2 d t' p')
  show ?case
  proof (cases "dials t")
    case True
    obtain e r where c: "connect d (p\<lparr>tasks := ts1 @ ts2\<rparr>) = (e, r)"
      by (cases "connect d (p\<lparr>tasks := ts1 @ ts2\<rparr>)")
    have p': "p' = r"
      using True sched(3) c by (cases t rule: dials.cases) (auto split: bool.splits)
    from connect_effect [OF c] sched(2,4) show ?thesis
      by (auto simp: p')
  next
    case False
    with sched show ?thesis
      by (cases t rule: dials.cases)
        (auto simp: Let_def emit_def go_def drain_def split: if_splits)
  qed
next
  case (handle p c err cl)
  then show ?case
    by (auto simp: HandleError_def Let_def emit_def go_def index_of_Some distinct_remove_at
        split: option.splits)
qed (auto simp: Pick_def Close_def emit_def go_def Let_def)

lemma reachable_distinct: "reachable p \<Longrightarrow> distinct (conns p)"
  by (induction rule: reachable.induct) (auto simp: go_def empty_pool_def distinct_moves)

lemma reachable_example:
  "reachable \<lparr>host = hostA, port = 9042, size' = 2, keyspace = [], conns = [1],
     closed = True, filling = True,
     trace = [RLock, RUnlock, Lock, Unlock, Dial, Lock, SetConns (Some [1]), Unlock, Lock, Unlock],
     tasks = [ConnectMany 1, Drain]\<rparr>"
proof -
  have r0: "reachable \<lparr>host = hostA, port = 9042, size' = 2, keyspace = [], conns = [],
     closed = False, filling = False, trace = [], tasks = [Fill]\<rparr>"
    using reachable.init [of 2 hostA 9042 "[]"] by (simp add: go_def empty_pool_def)
  have r1: "reachable \<lparr>host = hostA, port = 9042, size' = 2, keyspace = [], conns = [],
     closed = False, filling = False, trace = [RLock, RUnlock], tasks = [FillUpgrade]\<rparr>"
    using reachable.later [OF r0 moves.sched [of _ "[]" Fill "[]" DialErr]]
    by (simp add: emit_def)
  have r2: "reachable \<lparr>host = hostA, port = 9042, size' = 2, keyspace = [], conns = [],
     closed = False, filling = True, trace = [RLock, RUnlock, Lock, Unlock],
     tasks = [FillFirst 2]\<rparr>"
    using reachable.later [OF r1 moves.sched [of _ "[]" FillUpgrade "[]" DialErr]]
    by (simp add: emit_def)
  have r3: "reachable \<lparr>host = hostA, port = 9042, size' = 2, keyspace = [], conns = [1],
     closed = False, filling = True,
     trace = [RLock, RUnlock, Lock, Unlock, Dial, Lock, SetConns (Some [1]), Unlock],
     tasks = [ConnectMany 1]\<rparr>"
    using reachable.later [OF r2 moves.sched [of _ "[]" "FillFirst 2" "[]" "Dialed 1 True"]]
    by (simp add: emit_def connect_def Let_def)
  show ?thesis
    using reachable.later [OF r3 moves.close]
    by (simp add: emit_def Close_def go_def)
qed


theorem conns_within_size_witness:
  "reachable \<lparr>host = hostA, port = 9042, size' = 2, keyspace = [], conns = [1],
     closed = True, filling = True,
     trace = [RLock, RUnlock, Lock, Unlock, Dial, Lock, SetConns (Some [1]), Unlock, Lock, Unlock],
     tasks = [ConnectMany 1, Drain]\<rparr> \<and>
   int (length (conns \<lparr>host = hostA, port = 9042, size' = 2, keyspace = [], conns = [1],
     closed = True, filling = True,
     trace = [RLock, RUnlock, Lock, Unlock, Dial, Lock, SetConns (Some [1]), Unlock, Lock, Unlock],
     tasks = [ConnectMany 1, Drain]\<rparr>)) \<le> 2 \<and>
   moves\<^sup>*\<^sup>*
     \<lparr>host = hostA, port = 9042, size' = 2, keyspace = [], conns = [1],
      closed = True, filling = True,
      trace = [RLock, RUnlock, Lock, Unlock, Dial, Lock, SetConns (Some [1]), Unlock, Lock, Unlock],
      tasks = [ConnectMany 1, Drain]\<rparr>
     \<lparr>host = hostA, port = 9042, size' = 2, keyspace = [], conns = [1],
      closed = True, filling = True,
      trace = [RLock, RUnlock, Lock, Unlock, Dial, Lock, SetConns (Some [1]), Unlock, Lock, Unlock,
               Dial, Lock, ConnClose 2, Unlock],
      tasks = [Drain, ConnectMany 0]\<rparr> \<and>
   closed \<lparr>host = hostA, port = 9042, size' = 2, keyspace = [], conns = [1],
      closed = True, filling = True,
      trace = [RLock, RUnlock, Lock, Unlock, Dial, Lock, SetConns (Some [1]), Unlock, Lock, Unlock,
               Dial, Lock, ConnClose 2, Unlock],
      tasks = [Drain, ConnectMany 0]\<rparr>"
proof -
  have m: "moves
     \<lparr>host = hostA, port = 9042, size' = 2, keyspace = [], conns = [1],
      closed = True, filling = True,
      trace = [RLock, RUnlock, Lock, Unlock, Dial, Lock, SetConns (Some [1]), Unlock, Lock, Unlock],
      tasks = [ConnectMany 1, Drain]\<rparr>
     \<lparr>host = hostA, port = 9042, size' = 2, keyspace = [], conns = [1],
      closed = True, filling = True,
      trace = [RLock, RUnlock, Lock, Unlock, Dial, Lock, SetConns (Some [1]), Unlock, Lock, Unlock,
               Dial, Lock, ConnClose 2, Unlock],
      tasks = [Drain, ConnectMany 0]\<rparr>"
    using moves.sched [of "\<lparr>host = hostA, port = 9042, size' = 2, keyspace = [], conns = [1],
      closed = True, filling = True,
      trace = [RLock, RUnlock, Lock, Unlock, Dial, Lock, SetConns (Some [1]), Unlock, Lock, Unlock],
      tasks = [ConnectMany 1, Drain]\<rparr>" "[]" "ConnectMany 1" "[Drain]" "Dialed 2 True"]
    by (simp add: emit_def connect_def Let_def)
  then have ms: "moves\<^sup>*\<^sup>*
     \<lparr>host = hostA, port = 9042, size' = 2, keyspace = [], conns = [1],
      closed = True, filling = True,
      trace = [RLock, RUnlock, Lock, Unlock, Dial, Lock, SetConns (Some [1]), Unlock, Lock, Unlock],
      tasks = [ConnectMany 1, Drain]\<rparr>
     \<lparr>host = hostA, port = 9042, size' = 2, keyspace = [], conns = [1],
      closed = True, filling = True,
      trace = [RLock, RUnlock, Lock, Unlock, Dial, Lock, SetConns (Some [1]), Unlock, Lock, Unlock,
               Dial, Lock, ConnClose 2, Unlock],
      tasks = [Drain, ConnectMany 0]\<rparr>"
    by (rule r_into_rtranclp)
  from conns_within_size [OF reachable_example] ms reachable_example show ?thesis
    by simp
qed


section \<open>Filling an empty pool\<close>

lemma connect_fails_effect:
  "fst (connect d p) \<Longrightarrow>
     conns (snd (connect d p)) = conns p \<and> tasks (snd (connect d p)) = tasks p \<and>
     closed (snd (connect d p)) = closed p \<and> filling (snd (connect d p)) = filling p \<and>
     size' (snd (connect d p)) = size' p \<and>
     length (filter (\<lambda>e. e = Dial) (trace (snd (connect d p))))
       = Suc (length (filter (\<lambda>e. e = Dial) (trace p)))"
  by (cases d) (auto simp: connect_def emit_def Let_def split: if_splits)

lemma connect_succeeds_effect:
  "\<not> fst (connect d p) \<Longrightarrow> \<not> closed p \<Longrightarrow>
     \<exists>c ks. d = Dialed c ks \<and> conns (snd (connect d p)) = conns p @ [c] \<and>
       tasks (snd (connect d p)) = tasks p \<and> \<not> closed (snd (connect d p)) \<and>
       filling (snd (connect d p)) = filling p \<and>
       trace (snd (connect d p))
         = trace p @ Dial # (if keyspace p \<noteq> [] then [UseKeyspace c] else [])
             @ [Lock, SetConns (Some (conns p @ [c])), Unlock]"
  by (cases d) (auto simp: connect_def emit_def Let_def split: if_splits)

lemma run_Fill_empty:
  assumes "conns p = []" "\<not> closed p" "\<not> filling p" "0 < size' p"
  shows "run ds Fill p
    = run ds (FillFirst (size' p)) (emit [RLock, RUnlock, Lock, Unlock] (p\<lparr>filling := True\<rparr>))"
proof -
  have "run ds Fill p = run ds FillUpgrade (emit [RLock, RUnlock] p)"
    using assms by (subst run.simps) (simp add: Let_def)
  also have "\<dots> = run ds (FillFirst (size' p))
      (emit [RLock, RUnlock, Lock, Unlock] (p\<lparr>filling := True\<rparr>))"
    using assms by (subst run.simps) (simp add: Let_def emit_def)
  finally show ?thesis .
qed

lemma connect_frame:
  "size' (snd (connect d p)) = size' p \<and> tasks (snd (connect d p)) = tasks p \<and>
   filling (snd (connect d p)) = filling p \<and> closed (snd (connect d p)) = closed p \<and>
   keyspace (snd (connect d p)) = keyspace p \<and>
   length (filter (\<lambda>e. e = Dial) (trace (snd (connect d p))))
     = Suc (length (filter (\<lambda>e. e = Dial) (trace p)))"
  by (cases d) (auto simp: connect_def emit_def Let_def split: if_splits)

lemma connect_appends:
  "\<not> closed p \<Longrightarrow> d = Dialed c ks \<Longrightarrow> ks \<or> keyspace p = [] \<Longrightarrow>
     \<not> fst (connect d p) \<and> conns (snd (connect d p)) = conns p @ [c]"
  by (auto simp: connect_def emit_def Let_def)

lemma run_ConnectMany_frame:
  "filling (run ds (ConnectMany k) p) = False \<and>
   closed (run ds (ConnectMany k) p) = closed p \<and>
   tasks (run ds (ConnectMany k) p) = tasks p \<and>
   length (filter (\<lambda>e. e = Dial) (trace (run ds (ConnectMany k) p)))
     = length (filter (\<lambda>e. e = Dial) (trace p)) + k"
proof (induction k arbitrary: ds p)
  case 0
  have "run ds (ConnectMany 0) p = run ds (FillingStopped False) p"
    by (subst run.simps) simp
  also have "\<dots> = emit [Lock, Unlock] (p\<lparr>filling := False\<rparr>)"
    by (subst run.simps) (simp add: Let_def)
  finally show ?case by (simp add: emit_def)
next
  case (Suc k)
  have "run ds (ConnectMany (Suc k)) p
      = run (\<lambda>i. ds (Suc i)) (ConnectMany k) (snd (connect (ds 0) p))"
    by (subst run.simps) simp
  with Suc.IH [of "\<lambda>i. ds (Suc i)" "snd (connect (ds 0) p)"] connect_frame [of "ds 0" p]
  show ?case by simp
qed

lemma run_ConnectMany_conns:
  "\<not> closed p \<Longrightarrow> \<forall>i<k. \<exists>ks. ds i = Dialed (c i) ks \<and> (ks \<or> keyspace p = []) \<Longrightarrow>
     conns (run ds (ConnectMany k) p) = conns p @ map c [0..<k]"
proof (induction k arbitrary: ds p c)
  case 0
  have "run ds (ConnectMany 0) p = run ds (FillingStopped False) p"
    by (subst run.simps) simp
  also have "\<dots> = emit [Lock, Unlock] (p\<lparr>filling := False\<rparr>)"
    by (subst run.simps) (simp add: Let_def)
  finally show ?case by (simp add: emit_def)
next
  case (Suc k)
  from Suc.prems(2) obtain ks where d0: "ds 0 = Dialed (c 0) ks" "ks \<or> keyspace p = []"
    by auto
  let ?q = "snd (connect (ds 0) p)"
  have q: "\<not> closed ?q" "keyspace ?q = keyspace p" "conns ?q = conns p @ [c 0]"
    using connect_frame [of "ds 0" p] connect_appends [OF Suc.prems(1) d0] Suc.prems(1)
    by simp_all
  have rest: "\<forall>i<k. \<exists>ks. ds (Suc i) = Dialed (c (Suc i)) ks \<and> (ks \<or> keyspace ?q = [])"
    using Suc.prems(2) q(2) by simp
  have "run ds (ConnectMany (Suc k)) p = run (\<lambda>i. ds (Suc i)) (ConnectMany k) ?q"
    by (subst run.simps) simp
  then have "conns (run ds (ConnectMany (Suc k)) p) = conns ?q @ map (\<lambda>i. c (Suc i)) [0..<k]"
    using Suc.IH [OF q(1), of "\<lambda>i. ds (Suc i)" "\<lambda>i. c (Suc i)"] rest by simp
  also have "\<dots> = conns p @ c 0 # map (\<lambda>i. c (Suc i)) [0..<k]"
    using q(3) by simp
  also have "c 0 # map (\<lambda>i. c (Suc i)) [0..<k] = map c [0..<Suc k]"
  proof -
    have "[0..<Suc k] = 0 # map Suc [0..<k]"
      by (simp add: upt_conv_Cons map_Suc_upt del: upt_Suc)
    then show ?thesis by (simp add: o_def del: upt_Suc)
  qed
  finally show ?case .
qed

text \<open>
  Claim C3.  \<^verbatim>\<open>fill\<close> on a pool with no connections that is not closed, not filling and
  below its target size passes both checks, sets \<^verbatim>\<open>filling\<close>, and calls \<^verbatim>\<open>connect()\<close>
  itself: the goroutine that called \<^verbatim>\<open>fill\<close> goes on as \<open>FillFirst\<close> and nothing is
  started.  When that \<^verbatim>\<open>connect()\<close> returns an error, the caller goes to
  \<^verbatim>\<open>fillingStopped\<close>, which clears \<^verbatim>\<open>filling\<close>, and then starts
  \<^verbatim>\<open>handleNodeDown\<close> as a goroutine; run to its return, \<^verbatim>\<open>fill\<close> has dialled once,
  holds no connection and has left \<^verbatim>\<open>closed\<close> unset.  When it returns no error, the
  dialled connection is the pool's only one and the caller enters \<^verbatim>\<open>connectMany\<close> with
  \<^verbatim>\<open>size - 1\<close> goroutines.  Each of them runs \<^verbatim>\<open>connect()\<close> once, whatever the
  others met: run to its return, \<^verbatim>\<open>fill\<close> has dialled \<^verbatim>\<open>size\<close> times in all, has
  cleared \<^verbatim>\<open>filling\<close> and has started no goroutine.  When every dial succeeds, the pool
  ends with the \<^verbatim>\<open>size\<close> dialled connections, in the order of their locked sections.
\<close>

theorem fill_on_empty_pool:
  assumes "conns p = []" and "\<not> closed p" and "\<not> filling p" and "0 < size' p"
  shows
    "step d0 Fill p = (Some FillUpgrade, emit [RLock, RUnlock] p) \<and>
     step d1 FillUpgrade (emit [RLock, RUnlock] p)
       = (Some (FillFirst (size' p)), emit [RLock, RUnlock, Lock, Unlock] (p\<lparr>filling := True\<rparr>)) \<and>
     (let p2 = emit [RLock, RUnlock, Lock, Unlock] (p\<lparr>filling := True\<rparr>);
          r = connect (ds 0) p2
      in (fst r \<longrightarrow>
            step (ds 0) (FillFirst (size' p)) p2 = (Some (FillingStopped True), snd r) \<and>
            conns (snd r) = [] \<and> tasks (snd r) = tasks p \<and>
            step d2 (FillingStopped True) (snd r)
              = (None, go HandleNodeDown (emit [Lock, Unlock] ((snd r)\<lparr>filling := False\<rparr>))) \<and>
            run ds Fill p = go HandleNodeDown (emit [Lock, Unlock] ((snd r)\<lparr>filling := False\<rparr>)) \<and>
            conns (run ds Fill p) = [] \<and>
            \<not> closed (run ds Fill p) \<and>
            \<not> filling (run ds Fill p) \<and>
            tasks (run ds Fill p) = tasks p @ [HandleNodeDown] \<and>
            length (filter (\<lambda>e. e = Dial) (trace (run ds Fill p)))
              = Suc (length (filter (\<lambda>e. e = Dial) (trace p)))) \<and>
         (\<not> fst r \<longrightarrow>
            (\<exists>c ks. ds 0 = Dialed c ks \<and> conns (snd r) = [c]) \<and>
            tasks (snd r) = tasks p \<and>
            step (ds 0) (FillFirst (size' p)) p2
              = (Some (ConnectMany (nat (size' p - 1))), snd r) \<and>
            run ds Fill p
              = run (\<lambda>i. ds (Suc i)) (ConnectMany (nat (size' p - 1))) (snd r) \<and>
            length (filter (\<lambda>e. e = Dial) (trace (run ds Fill p)))
              = length (filter (\<lambda>e. e = Dial) (trace p)) + nat (size' p) \<and>
            \<not> filling (run ds Fill p) \<and>
            \<not> closed (run ds Fill p) \<and>
            tasks (run ds Fill p) = tasks p)) \<and>
     step d3 (ConnectMany (Suc k)) q = (Some (ConnectMany k), snd (connect d3 q)) \<and>
     step d3 (ConnectMany 0) q = (Some (FillingStopped False), q) \<and>
     step d3 (FillingStopped False) q = (None, emit [Lock, Unlock] (q\<lparr>filling := False\<rparr>)) \<and>
     ((\<forall>i<nat (size' p). \<exists>ks. ds i = Dialed (c i) ks \<and> (ks \<or> keyspace p = [])) \<longrightarrow>
        conns (run ds Fill p) = map c [0..<nat (size' p)])"
proof -
  let ?p2 = "emit [RLock, RUnlock, Lock, Unlock] (p\<lparr>filling := True\<rparr>)"
  let ?r = "connect (ds 0) ?p2"
  let ?dials = "\<lambda>x. length (filter (\<lambda>e. e = Dial) (trace x))"
  have p2: "conns ?p2 = []" "\<not> closed ?p2" "tasks ?p2 = tasks p" "size' ?p2 = size' p"
    "length (filter (\<lambda>e. e = Dial) (trace ?p2)) = length (filter (\<lambda>e. e = Dial) (trace p))"
    "keyspace ?p2 = keyspace p"
    using assms by (simp_all add: emit_def)
  have s0: "step d0 Fill p = (Some FillUpgrade, emit [RLock, RUnlock] p)"
    using assms by (simp add: Let_def)
  have s1: "step d1 FillUpgrade (emit [RLock, RUnlock] p) = (Some (FillFirst (size' p)), ?p2)"
    using assms by (simp add: Let_def emit_def)
  have r0: "run ds Fill p = run ds (FillFirst (size' p)) ?p2"
    using assms by (rule run_Fill_empty)
  have fail: "step (ds 0) (FillFirst (size' p)) ?p2 = (Some (FillingStopped True), snd ?r) \<and>
      conns (snd ?r) = [] \<and> tasks (snd ?r) = tasks p \<and>
      step d2 (FillingStopped True) (snd ?r)
        = (None, go HandleNodeDown (emit [Lock, Unlock] ((snd ?r)\<lparr>filling := False\<rparr>))) \<and>
      run ds Fill p = go HandleNodeDown (emit [Lock, Unlock] ((snd ?r)\<lparr>filling := False\<rparr>)) \<and>
      conns (run ds Fill p) = [] \<and> \<not> closed (run ds Fill p) \<and> \<not> filling (run ds Fill p) \<and>
      tasks (run ds Fill p) = tasks p @ [HandleNodeDown] \<and>
      length (filter (\<lambda>e. e = Dial) (trace (run ds Fill p)))
        = Suc (length (filter (\<lambda>e. e = Dial) (trace p)))" if f: "fst ?r"
  proof -
    have st: "step (ds 0) (FillFirst (size' p)) ?p2 = (Some (FillingStopped True), snd ?r)"
      using f by (cases ?r) auto
    have st2: "step d (FillingStopped True) (snd ?r)
        = (None, go HandleNodeDown (emit [Lock, Unlock] ((snd ?r)\<lparr>filling := False\<rparr>)))" for d
      by (simp add: Let_def)
    have "run ds (FillFirst (size' p)) ?p2 = run (\<lambda>i. ds (Suc i)) (FillingStopped True) (snd ?r)"
      by (subst run.simps) (simp add: st del: step.simps)
    also have "\<dots> = go HandleNodeDown (emit [Lock, Unlock] ((snd ?r)\<lparr>filling := False\<rparr>))"
      by (subst run.simps) (simp add: st2 del: step.simps)
    finally have rn: "run ds Fill p
        = go HandleNodeDown (emit [Lock, Unlock] ((snd ?r)\<lparr>filling := False\<rparr>))"
      using r0 by simp
    from connect_fails_effect [OF f] p2 st st2 rn show ?thesis
      by (simp add: go_def emit_def)
  qed
  have cont: "run ds Fill p = run (\<lambda>i. ds (Suc i)) (ConnectMany (nat (size' p - 1))) (snd ?r)"
    if f: "\<not> fst ?r"
  proof -
    have st: "step (ds 0) (FillFirst (size' p)) ?p2
        = (Some (ConnectMany (nat (size' p - 1))), snd ?r)"
      using f by (cases ?r) auto
    have "run ds (FillFirst (size' p)) ?p2
        = run (\<lambda>i. ds (Suc i)) (ConnectMany (nat (size' p - 1))) (snd ?r)"
      by (subst run.simps) (simp add: st del: step.simps)
    with r0 show ?thesis by simp
  qed
  have ok: "(\<exists>c ks. ds 0 = Dialed c ks \<and> conns (snd ?r) = [c]) \<and> tasks (snd ?r) = tasks p \<and>
      step (ds 0) (FillFirst (size' p)) ?p2 = (Some (ConnectMany (nat (size' p - 1))), snd ?r) \<and>
      run ds Fill p = run (\<lambda>i. ds (Suc i)) (ConnectMany (nat (size' p - 1))) (snd ?r) \<and>
      length (filter (\<lambda>e. e = Dial) (trace (run ds Fill p)))
        = length (filter (\<lambda>e. e = Dial) (trace p)) + nat (size' p) \<and>
      \<not> filling (run ds Fill p) \<and> \<not> closed (run ds Fill p) \<and> tasks (run ds Fill p) = tasks p"
    if f: "\<not> fst ?r"
  proof -
    have st: "step (ds 0) (FillFirst (size' p)) ?p2
        = (Some (ConnectMany (nat (size' p - 1))), snd ?r)"
      using f by (cases ?r) auto
    have n: "Suc (nat (size' p - 1)) = nat (size' p)"
      using assms(4) by simp
    have fr: "filling (run ds Fill p) = False \<and> closed (run ds Fill p) = closed (snd ?r) \<and>
        tasks (run ds Fill p) = tasks (snd ?r) \<and>
        ?dials (run ds Fill p) = ?dials (snd ?r) + nat (size' p - 1)"
      using run_ConnectMany_frame [of "\<lambda>i. ds (Suc i)" "nat (size' p - 1)" "snd ?r"] cont [OF f]
      by simp
    have "?dials (run ds Fill p) = ?dials p + nat (size' p)"
      using fr connect_frame [of "ds 0" ?p2] p2(5) n by simp
    with connect_succeeds_effect [OF f p2(2)] connect_frame [of "ds 0" ?p2] p2 st cont [OF f] fr
    show ?thesis
      by auto
  qed
  have s3: "step d3 (ConnectMany (Suc k)) q = (Some (ConnectMany k), snd (connect d3 q)) \<and>
      step d3 (ConnectMany 0) q = (Some (FillingStopped False), q) \<and>
      step d3 (FillingStopped False) q = (None, emit [Lock, Unlock] (q\<lparr>filling := False\<rparr>))"
    by (simp add: Let_def)
  have full: "conns (run ds Fill p) = map c [0..<nat (size' p)]"
    if all: "\<forall>i<nat (size' p). \<exists>ks. ds i = Dialed (c i) ks \<and> (ks \<or> keyspace p = [])"
  proof -
    from all assms(4) obtain ks where d0: "ds 0 = Dialed (c 0) ks" "ks \<or> keyspace ?p2 = []"
      using p2(6) by (metis zero_less_nat_eq)
    from connect_appends [OF p2(2) d0] p2(1)
    have f: "\<not> fst ?r" and c0: "conns (snd ?r) = [c 0]"
      by simp_all
    have nc: "\<not> closed (snd ?r)" and ksp: "keyspace (snd ?r) = keyspace p"
      using connect_frame [of "ds 0" ?p2] p2(2,6) by simp_all
    have n: "Suc (nat (size' p - 1)) = nat (size' p)"
      using assms(4) by simp
    have rest: "\<forall>i<nat (size' p - 1). \<exists>ks. ds (Suc i) = Dialed (c (Suc i)) ks \<and>
        (ks \<or> keyspace (snd ?r) = [])"
      using all ksp n by (metis Suc_less_eq)
    have "conns (run ds Fill p) = [c 0] @ map (\<lambda>i. c (Suc i)) [0..<nat (size' p - 1)]"
      using run_ConnectMany_conns [OF nc, of "nat (size' p - 1)" "\<lambda>i. ds (Suc i)" "\<lambda>i. c (Suc i)"]
        rest cont [OF f] c0 by simp
    also have "\<dots> = map c [0..<Suc (nat (size' p - 1))]"
    proof -
      have "[0..<Suc (nat (size' p - 1))] = 0 # map Suc [0..<nat (size' p - 1)]"
        by (simp add: upt_conv_Cons map_Suc_upt del: upt_Suc)
      then show ?thesis by (simp add: o_def del: upt_Suc)
    qed
    finally show ?thesis using n by simp
  qed
  show ?thesis
    unfolding Let_def using s0 s1 fail ok s3 full by blast
qed

theorem fill_on_empty_pool_witness:
  "conns (empty_pool hostA 9042 3 []) = [] \<and>
   \<not> closed (empty_pool hostA 9042 3 []) \<and>
   \<not> filling (empty_pool hostA 9042 3 []) \<and>
   0 < size' (empty_pool hostA 9042 3 []) \<and>
   fst (connect DialErr
     (emit [RLock, RUnlock, Lock, Unlock] ((empty_pool hostA 9042 3 [])\<lparr>filling := True\<rparr>))) \<and>
   run (\<lambda>i. DialErr) Fill (empty_pool hostA 9042 3 [])
     = \<lparr>host = hostA, port = 9042, size' = 3, keyspace = [], conns = [], closed = False,
        filling = False, trace = [RLock, RUnlock, Lock, Unlock, Dial, Lock, Unlock],
        tasks = [HandleNodeDown]\<rparr> \<and>
   \<not> fst (connect (Dialed 1 True)
     (emit [RLock, RUnlock, Lock, Unlock] ((empty_pool hostA 9042 3 [])\<lparr>filling := True\<rparr>))) \<and>
   step (Dialed 1 True) (FillFirst 3)
     (emit [RLock, RUnlock, Lock, Unlock] ((empty_pool hostA 9042 3 [])\<lparr>filling := True\<rparr>))
     = (Some (ConnectMany 2),
        \<lparr>host = hostA, port = 9042, size' = 3, keyspace = [], conns = [1], closed = False,
         filling = True,
         trace = [RLock, RUnlock, Lock, Unlock, Dial, Lock, SetConns (Some [1]), Unlock],
         tasks = []\<rparr>) \<and>
   conns (run (\<lambda>i. Dialed (Suc i) True) Fill (empty_pool hostA 9042 3 [])) = [1, 2, 3] \<and>
   length (filter (\<lambda>e. e = Dial)
     (trace (run (\<lambda>i. Dialed (Suc i) True) Fill (empty_pool hostA 9042 3 [])))) = 3 \<and>
   \<not> filling (run (\<lambda>i. Dialed (Suc i) True) Fill (empty_pool hostA 9042 3 [])) \<and>
   tasks (run (\<lambda>i. Dialed (Suc i) True) Fill (empty_pool hostA 9042 3 [])) = []"
proof -
  let ?P = "empty_pool hostA 9042 3 []"
  let ?ds = "\<lambda>i. Dialed (Suc i) True"
  have hyp: "conns ?P = []" "\<not> closed ?P" "\<not> filling ?P" "0 < size' ?P"
    by (simp_all add: empty_pool_def)
  have u: "map Suc [0..<nat (size' ?P)] = [1, 2, 3]"
    by (simp add: empty_pool_def upt_rec)
  have bad: "fst (connect DialErr (emit [RLock, RUnlock, Lock, Unlock] (?P\<lparr>filling := True\<rparr>)))"
    by (simp add: connect_def emit_def)
  have good: "\<not> fst (connect (?ds 0) (emit [RLock, RUnlock, Lock, Unlock] (?P\<lparr>filling := True\<rparr>)))"
    by (simp add: connect_def emit_def empty_pool_def Let_def)
  have all: "\<forall>i<nat (size' ?P). \<exists>ks. ?ds i = Dialed (Suc i) ks \<and> (ks \<or> keyspace ?P = [])"
    by blast
  note f1 = fill_on_empty_pool [where p = ?P and ds = "\<lambda>i. DialErr"
      and ?d0.0 = DialErr and ?d1.0 = DialErr and ?d2.0 = DialErr and ?d3.0 = DialErr
      and k = 0 and q = ?P and c = Suc, OF hyp, unfolded Let_def]
  note f2 = fill_on_empty_pool [where p = ?P and ds = ?ds
      and ?d0.0 = DialErr and ?d1.0 = DialErr and ?d2.0 = DialErr and ?d3.0 = DialErr
      and k = 0 and q = ?P and c = Suc, OF hyp, unfolded Let_def]
  have a: "run (\<lambda>i. DialErr) Fill ?P
      = go HandleNodeDown (emit [Lock, Unlock]
          ((snd (connect DialErr (emit [RLock, RUnlock, Lock, Unlock] (?P\<lparr>filling := True\<rparr>))))
             \<lparr>filling := False\<rparr>))"
    using f1 bad by blast
  have b: "step (?ds 0) (FillFirst (size' ?P))
        (emit [RLock, RUnlock, Lock, Unlock] (?P\<lparr>filling := True\<rparr>))
      = (Some (ConnectMany (nat (size' ?P - 1))),
         snd (connect (?ds 0) (emit [RLock, RUnlock, Lock, Unlock] (?P\<lparr>filling := True\<rparr>))))"
    using f2 good by blast
  have c: "length (filter (\<lambda>e. e = Dial) (trace (run ?ds Fill ?P)))
        = length (filter (\<lambda>e. e = Dial) (trace ?P)) + nat (size' ?P)"
      "\<not> filling (run ?ds Fill ?P)" "tasks (run ?ds Fill ?P) = tasks ?P"
    using f2 good by blast+
  have d: "conns (run ?ds Fill ?P) = map Suc [0..<nat (size' ?P)]"
    using f2 all by blast
  have a': "run (\<lambda>i. DialErr) Fill ?P
     = \<lparr>host = hostA, port = 9042, size' = 3, keyspace = [], conns = [], closed = False,
        filling = False, trace = [RLock, RUnlock, Lock, Unlock, Dial, Lock, Unlock],
        tasks = [HandleNodeDown]\<rparr>"
    unfolding a by (simp add: empty_pool_def emit_def connect_def go_def)
  have b': "step (Dialed 1 True) (FillFirst 3)
     (emit [RLock, RUnlock, Lock, Unlock] (?P\<lparr>filling := True\<rparr>))
     = (Some (ConnectMany 2),
        \<lparr>host = hostA, port = 9042, size' = 3, keyspace = [], conns = [1], closed = False,
         filling = True,
         trace = [RLock, RUnlock, Lock, Unlock, Dial, Lock, SetConns (Some [1]), Unlock],
         tasks = []\<rparr>)"
    using b by (simp add: empty_pool_def emit_def connect_def Let_def)
  have c': "length (filter (\<lambda>e. e = Dial) (trace (run ?ds Fill ?P))) = 3"
    "tasks (run ?ds Fill ?P) = []"
    using c(1,3) by (simp_all add: empty_pool_def)
  have good': "\<not> fst (connect (Dialed 1 True)
      (emit [RLock, RUnlock, Lock, Unlock] (?P\<lparr>filling := True\<rparr>)))"
    using good by simp
  show ?thesis
    using hyp bad a' good' b' d [unfolded u] c' c(2) by blast
qed

section \<open>Picking a host and a connection\<close>

lemma Pick_again: "fst (Pick pol (snd (Pick pol' pool))) = fst (Pick pol pool)"
  by (simp add: Pick_def Let_def emit_def go_def)

lemma yield_after_Pick:
  assumes "map_of (hostConnPools p) a = Some pool"
  shows "yield (p\<lparr>hostConnPools := AList.update a (snd (Pick pol' pool)) (hostConnPools p)\<rparr>) pol info
    = yield p pol info"
  using assms by (simp add: yield_def update_conv' Pick_again)

lemma pickLoop_skip:
  assumes "\<forall>pol info. yield q pol info = yield p pol info"
    and "\<forall>j. i \<le> j \<and> j < n \<longrightarrow>
           (\<exists>h info. nextHost j = Some h \<and> Info h = Some info \<and> yield p (cp j) info = None)"
    and "i \<le> n"
  shows "\<exists>q'. (\<forall>pol info. yield q' pol info = yield p pol info) \<and>
           pickLoop nextHost cp i q = pickLoop nextHost cp n q'"
  using assms
proof (induction "n - i" arbitrary: i q)
  case 0
  then have "i = n" by simp
  with 0 show ?case by blast
next
  case (Suc k)
  then have lt: "i < n" by simp
  with Suc.prems(2) obtain h info where
    h: "nextHost i = Some h" "Info h = Some info" "yield p (cp i) info = None"
    by (metis order_refl)
  have yq: "yield q (cp i) info = None"
    using Suc.prems(1) h(3) by simp
  have rest: "\<forall>j. Suc i \<le> j \<and> j < n \<longrightarrow>
      (\<exists>h info. nextHost j = Some h \<and> Info h = Some info \<and> yield p (cp j) info = None)"
    using Suc.prems(2) by (simp add: Suc_le_eq)
  have k: "k = n - Suc i" using Suc.hyps(2) by simp
  show ?case
  proof (cases "map_of (hostConnPools q) (Peer info)")
    case None
    then have "pickLoop nextHost cp i q = pickLoop nextHost cp (Suc i) q"
      using h by (subst pickLoop.simps) simp
    moreover obtain q' where "\<forall>pol info. yield q' pol info = yield p pol info"
      "pickLoop nextHost cp (Suc i) q = pickLoop nextHost cp n q'"
      using Suc.hyps(1) [OF k Suc.prems(1) rest] lt by auto
    ultimately show ?thesis by auto
  next
    case (Some pool)
    let ?q1 = "q\<lparr>hostConnPools := AList.update (Peer info) (snd (Pick (cp i) pool)) (hostConnPools q)\<rparr>"
    have none: "fst (Pick (cp i) pool) = None"
      using yq Some by (simp add: yield_def)
    have "pickLoop nextHost cp i q = pickLoop nextHost cp (Suc i) ?q1"
      using h Some none by (subst pickLoop.simps) (simp add: Let_def)
    moreover have "\<forall>pol info. yield ?q1 pol info = yield p pol info"
      using yield_after_Pick [OF Some] Suc.prems(1) by simp
    then obtain q' where "\<forall>pol info. yield q' pol info = yield p pol info"
      "pickLoop nextHost cp (Suc i) ?q1 = pickLoop nextHost cp n q'"
      using Suc.hyps(1) [OF k _ rest] lt by (metis Suc_leI)
    ultimately show ?thesis by auto
  qed
qed

text \<open>
  Claim C7.  Let the first \<open>n\<close> candidates of the iterator carry host information
  and give no connection (their address has no pool, or the pool's \<^verbatim>\<open>Pick\<close> returns
  nil).  If call \<open>n\<close> of the iterator returns nil, \<^verbatim>\<open>Pick\<close> returns (nil, nil); if
  it returns a candidate with host information whose pool gives a connection, \<^verbatim>\<open>Pick\<close>
  returns that candidate and that connection.  In both cases the loop ends.  A candidate
  without host information at call \<open>n\<close> makes \<^verbatim>\<open>Pick\<close> panic.
\<close>

theorem policyPick_first_yield:
  assumes "\<forall>j<n. \<exists>h info. nextHost j = Some h \<and> Info h = Some info \<and> yield p (cp j) info = None"
  shows "(nextHost n = None \<longrightarrow>
            (\<exists>p'. policyPick nextHost cp p = Some (Inr (None, None, p')))) \<and>
         (\<forall>h info c. nextHost n = Some h \<and> Info h = Some info \<and> yield p (cp n) info = Some c \<longrightarrow>
            (\<exists>p'. policyPick nextHost cp p = Some (Inr (Some h, Some c, p')))) \<and>
         (\<forall>h. nextHost n = Some h \<and> Info h = None \<longrightarrow>
            policyPick nextHost cp p = Some (Inl NoHostInfo))"
proof -
  have "\<forall>j. 0 \<le> j \<and> j < n \<longrightarrow>
      (\<exists>h info. nextHost j = Some h \<and> Info h = Some info \<and> yield p (cp j) info = None)"
    using assms by simp
  then obtain q where q: "\<forall>pol info. yield q pol info = yield p pol info"
    and l: "pickLoop nextHost cp 0 p = pickLoop nextHost cp n q"
    using pickLoop_skip [of p p 0 n nextHost cp] by auto
  have a: "\<exists>p'. policyPick nextHost cp p = Some (Inr (None, None, p'))" if "nextHost n = None"
    using that l by (subst (asm) (2) pickLoop.simps) (simp add: policyPick_def)
  have b: "\<exists>p'. policyPick nextHost cp p = Some (Inr (Some h, Some c, p'))"
    if "nextHost n = Some h" "Info h = Some info" "yield p (cp n) info = Some c" for h info c
  proof -
    have y: "yield q (cp n) info = Some c" using q that(3) by simp
    then obtain pool where pool: "map_of (hostConnPools q) (Peer info) = Some pool"
      "fst (Pick (cp n) pool) = Some c"
      by (auto simp: yield_def split: option.splits)
    have "pickLoop nextHost cp n q = Some (Inr (Some h, Some c,
        q\<lparr>hostConnPools := AList.update (Peer info) (snd (Pick (cp n) pool)) (hostConnPools q)\<rparr>))"
      using that(1,2) pool by (subst pickLoop.simps) (simp add: Let_def)
    then show ?thesis using l by (simp add: policyPick_def)
  qed
  have c: "policyPick nextHost cp p = Some (Inl NoHostInfo)"
    if "nextHost n = Some h" "Info h = None" for h
    using that l by (subst (asm) (2) pickLoop.simps) (simp add: policyPick_def)
  from a b c show ?thesis by blast
qed


theorem policyPick_first_yield_witness:
  "yield \<lparr>cfg_port = 9042, numConns = 1, cfg_keyspace = [],
      hostConnPools = [(''A'', (empty_pool hostA 9042 1 [])\<lparr>conns := [1]\<rparr>)],
      hostPolicy = [], detached = []\<rparr> (Some 1) hostB = None \<and>
   yield \<lparr>cfg_port = 9042, numConns = 1, cfg_keyspace = [],
      hostConnPools = [(''A'', (empty_pool hostA 9042 1 [])\<lparr>conns := [1]\<rparr>)],
      hostPolicy = [], detached = []\<rparr> (Some 1) hostA = Some 1 \<and>
   (\<exists>p'. policyPick
      (\<lambda>i. if i = 0 then Some (SelectedHost (Some hostB))
           else if i = 1 then Some (SelectedHost (Some hostA)) else None)
      (\<lambda>i. Some 1)
      \<lparr>cfg_port = 9042, numConns = 1, cfg_keyspace = [],
       hostConnPools = [(''A'', (empty_pool hostA 9042 1 [])\<lparr>conns := [1]\<rparr>)],
       hostPolicy = [], detached = []\<rparr>
      = Some (Inr (Some (SelectedHost (Some hostA)), Some 1, p'))) \<and>
   (\<exists>p'. policyPick
      (\<lambda>i. if i = 0 then Some (SelectedHost (Some hostB)) else None)
      (\<lambda>i. Some 1)
      \<lparr>cfg_port = 9042, numConns = 1, cfg_keyspace = [],
       hostConnPools = [(''A'', (empty_pool hostA 9042 1 [])\<lparr>conns := [1]\<rparr>)],
       hostPolicy = [], detached = []\<rparr>
      = Some (Inr (None, None, p')))"
  using policyPick_first_yield [of 1
      "\<lambda>i. if i = 0 then Some (SelectedHost (Some hostB))
           else if i = 1 then Some (SelectedHost (Some hostA)) else None"
      "\<lparr>cfg_port = 9042, numConns = 1, cfg_keyspace = [],
       hostConnPools = [(''A'', (empty_pool hostA 9042 1 [])\<lparr>conns := [1]\<rparr>)],
       hostPolicy = [], detached = []\<rparr>" "\<lambda>i. Some 1"]
    policyPick_first_yield [of 1
      "\<lambda>i. if i = 0 then Some (SelectedHost (Some hostB)) else None"
      "\<lparr>cfg_port = 9042, numConns = 1, cfg_keyspace = [],
       hostConnPools = [(''A'', (empty_pool hostA 9042 1 [])\<lparr>conns := [1]\<rparr>)],
       hostPolicy = [], detached = []\<rparr>" "\<lambda>i. Some 1"]
  by (simp add: yield_def Pick_def empty_pool_def emit_def Let_def)

section \<open>Reconciling the tracked hosts\<close>








lemma addCreated_distinct:
  "distinct (map fst m) \<Longrightarrow> distinct (map fst (addCreated pools m))"
  by (induction pools arbitrary: m) (auto simp: distinct_update)

lemma addCreated_dom: "a \<in> fst ` set m \<Longrightarrow> a \<in> fst ` set (addCreated pools m)"
proof (induction pools arbitrary: m)
  case Nil
  then show ?case by simp
next
  case (Cons x xs)
  have "a \<in> fst ` set (AList.update (Peer (host x)) x m)"
    using Cons.prems unfolding dom_update by blast
  with Cons.prems have "a \<in> fst ` set (if 0 < Size x then AList.update (Peer (host x)) x m else m)"
    by (cases "0 < Size x") (simp_all only: if_True if_False)
  from Cons.IH [OF this] show ?case by (simp only: addCreated.simps)
qed


























end
